theory Spec2Isabelle
  imports Main "HOL-Library.Word"
begin

section \<open>Machine integers and library boundaries\<close>

text \<open>
  The C++ type \<open>int\<close> is 32 bits wide and \<open>size_t\<close> is 64 bits wide. Values of type
  \<open>int\<close> are modelled as HOL integers in the range \<open>INT_MIN .. INT_MAX\<close>, values of type
  \<open>size_t\<close> as natural numbers below \<open>2 ^ 64\<close>; the conversions between the two are
  written out.
\<close>

definition INT_MAX :: int where
  "INT_MAX = 2 ^ 31 - 1"

definition INT_MIN :: int where
  "INT_MIN = - (2 ^ 31)"

definition is_int :: "int \<Rightarrow> bool" where
  "is_int x \<longleftrightarrow> INT_MIN \<le> x \<and> x \<le> INT_MAX"

text \<open>Conversion \<open>int \<rightarrow> size_t\<close>: reduction modulo \<open>2 ^ 64\<close>.\<close>

definition size_t_of_int :: "int \<Rightarrow> nat" where
  "size_t_of_int x = nat (x mod 2 ^ 64)"

text \<open>Conversion \<open>size_t \<rightarrow> int\<close>: the low 32 bits, read as two's complement.\<close>

definition int_of_size_t :: "nat \<Rightarrow> int" where
  "int_of_size_t n = (let r = int n mod 2 ^ 32 in if r < 2 ^ 31 then r else r - 2 ^ 32)"

text \<open>
  \<open>std::vector<bool>::max_size()\<close> is at most \<open>PTRDIFF_MAX\<close>; a \<open>resize\<close> beyond it
  throws \<open>std::length_error\<close>.
\<close>

definition vector_max_size :: nat where
  "vector_max_size = 2 ^ 63 - 1"

datatype error = Length_error | Division_by_zero | Out_of_range | Signed_overflow

text \<open>\<open>std::to_string(int)\<close>: the decimal representation.\<close>

definition digit_char :: "nat \<Rightarrow> char" where
  "digit_char d = char_of (48 + d)"

fun decimal :: "nat \<Rightarrow> string" where
  "decimal n = (if n < 10 then [digit_char n] else decimal (n div 10) @ [digit_char (n mod 10)])"

declare decimal.simps [simp del]

definition to_string :: "int \<Rightarrow> string" where
  "to_string i = (if i < 0 then CHR ''-'' # decimal (nat (- i)) else decimal (nat i))"

text \<open>
  \<open>std::hash<std::string>\<close> is implementation-defined; it is a parameter \<open>hasher\<close> of
  the model, a function from strings to \<open>size_t\<close>.
\<close>

type_synonym string_hash = "string \<Rightarrow> 64 word"

section \<open>Standard Bloom filter\<close>

record StandardBloomFilter =
  bit_array :: "bool list"
  size_bf :: int
  num_hashes :: int

text \<open>
  \<open>hash\<close>: \<open>hasher(item + std::to_string(seed)) % size\<close>, computed in \<open>size_t\<close> and
  returned as \<open>int\<close>. A zero divisor is undefined behaviour (a trap), modelled as an error.
\<close>

definition hash :: "string_hash \<Rightarrow> StandardBloomFilter \<Rightarrow> string \<Rightarrow> int \<Rightarrow> error + int" where
  "hash hasher b item seed =
     (let m = size_t_of_int (size_bf b)
      in if m = 0 then Inl Division_by_zero
         else Inr (int_of_size_t (unat (hasher (item @ to_string seed)) mod m)))"

text \<open>
  The constructor: \<open>size(s), num_hashes(k)\<close>, then \<open>bit_array.resize(size, false)\<close>
  on the initially empty vector.
\<close>

definition StandardBloomFilter_ctor :: "int \<Rightarrow> int \<Rightarrow> error + StandardBloomFilter" where
  "StandardBloomFilter_ctor s k =
     (let n = size_t_of_int s
      in if vector_max_size < n then Inl Length_error
         else Inr \<lparr>bit_array = replicate n False, size_bf = s, num_hashes = k\<rparr>)"

text \<open>
  The loop of \<open>insert\<close>, from counter \<open>i\<close>. The subscript \<open>bit_array[...]\<close> converts the
  index to \<open>size_t\<close>; an index outside the vector is undefined behaviour, modelled as an error.
\<close>

function insert_loop :: "string_hash \<Rightarrow> string \<Rightarrow> int \<Rightarrow> StandardBloomFilter \<Rightarrow> error + StandardBloomFilter" where
  "insert_loop hasher item i b =
     (if i < num_hashes b then
        (case hash hasher b item i of
           Inl e \<Rightarrow> Inl e
         | Inr idx \<Rightarrow>
             (let n = size_t_of_int idx
              in if n < length (bit_array b)
                 then insert_loop hasher item (i + 1) (b\<lparr>bit_array := (bit_array b)[n := True]\<rparr>)
                 else Inl Out_of_range))
      else Inr b)"
  by pat_completeness auto
termination
  by (relation "measure (\<lambda>(hasher, item, i, b). nat (num_hashes b - i))") auto

declare insert_loop.simps [simp del]

definition insert_bf :: "string_hash \<Rightarrow> StandardBloomFilter \<Rightarrow> string \<Rightarrow> error + StandardBloomFilter" where
  "insert_bf hasher b item = insert_loop hasher item 0 b"

function contains_loop :: "string_hash \<Rightarrow> string \<Rightarrow> int \<Rightarrow> StandardBloomFilter \<Rightarrow> error + bool" where
  "contains_loop hasher item i b =
     (if i < num_hashes b then
        (case hash hasher b item i of
           Inl e \<Rightarrow> Inl e
         | Inr idx \<Rightarrow>
             (let n = size_t_of_int idx
              in if n < length (bit_array b)
                 then (if \<not> bit_array b ! n then Inr False
                       else contains_loop hasher item (i + 1) b)
                 else Inl Out_of_range))
      else Inr True)"
  by pat_completeness auto
termination
  by (relation "measure (\<lambda>(hasher, item, i, b). nat (num_hashes b - i))") auto

declare contains_loop.simps [simp del]

definition possibly_contains :: "string_hash \<Rightarrow> StandardBloomFilter \<Rightarrow> string \<Rightarrow> error + bool" where
  "possibly_contains hasher b item = contains_loop hasher item 0 b"

definition get_memory_bits :: "StandardBloomFilter \<Rightarrow> int" where
  "get_memory_bits b = size_bf b"

section \<open>Sandwiched learned Bloom filter\<close>

text \<open>
  \<open>evaluate_model\<close> is declared in \<open>decision_tree.h\<close>; it is a parameter of the model,
  a predicate on the three features.
\<close>

type_synonym classifier = "int \<Rightarrow> int \<Rightarrow> int \<Rightarrow> bool"

record SandwichedLearnedBloomFilter =
  L1_filter :: StandardBloomFilter
  L3_filter :: StandardBloomFilter

text \<open>\<open>isdigit\<close> on a character: the ASCII digits \<open>0\<close> to \<open>9\<close>.\<close>

definition isdigit :: "char \<Rightarrow> bool" where
  "isdigit c \<longleftrightarrow> (48::nat) \<le> of_char c \<and> of_char c \<le> (57::nat)"

text \<open>
  The increment \<open>x++\<close> of an \<open>int\<close>. At \<open>INT_MAX\<close> it overflows, which is undefined
  behaviour, modelled as an error.
\<close>

definition int_increment :: "int \<Rightarrow> error + int" where
  "int_increment x = (if x < INT_MAX then Inr (x + 1) else Inl Signed_overflow)"

text \<open>
  The loop of \<open>extract_features\<close> over the characters, carrying the \<open>int\<close> counters
  \<open>f1\<close> and \<open>f2\<close>: first \<open>if (isdigit(c)) f1++\<close>, then \<open>if (c == '-') f2++\<close>.
\<close>

fun extract_loop :: "string \<Rightarrow> int \<Rightarrow> int \<Rightarrow> error + int \<times> int" where
  "extract_loop [] f1 f2 = Inr (f1, f2)"
| "extract_loop (c # cs) f1 f2 =
     (case (if isdigit c then int_increment f1 else Inr f1) of
        Inl e \<Rightarrow> Inl e
      | Inr f1' \<Rightarrow>
          (case (if c = CHR ''-'' then int_increment f2 else Inr f2) of
             Inl e \<Rightarrow> Inl e
           | Inr f2' \<Rightarrow> extract_loop cs f1' f2'))"

text \<open>
  \<open>f0 = item.length()\<close> converts a \<open>size_t\<close> to \<open>int\<close>; then \<open>f1 = 0; f2 = 0\<close> and the
  loop.
\<close>

definition extract_features :: "string \<Rightarrow> error + int \<times> int \<times> int" where
  "extract_features item =
     (let f0 = int_of_size_t (length item)
      in case extract_loop item 0 0 of
           Inl e \<Rightarrow> Inl e
         | Inr (f1, f2) \<Rightarrow> Inr (f0, f1, f2))"

text \<open>The members are constructed in declaration order: \<open>L1_filter\<close>, then \<open>L3_filter\<close>.\<close>

definition SandwichedLearnedBloomFilter_ctor ::
  "int \<Rightarrow> int \<Rightarrow> int \<Rightarrow> int \<Rightarrow> error + SandwichedLearnedBloomFilter" where
  "SandwichedLearnedBloomFilter_ctor L1_size L1_hashes L3_size L3_hashes =
     (case StandardBloomFilter_ctor L1_size L1_hashes of
        Inl e \<Rightarrow> Inl e
      | Inr l1 \<Rightarrow>
          (case StandardBloomFilter_ctor L3_size L3_hashes of
             Inl e \<Rightarrow> Inl e
           | Inr l3 \<Rightarrow> Inr \<lparr>L1_filter = l1, L3_filter = l3\<rparr>))"

definition insert_L1 ::
  "string_hash \<Rightarrow> SandwichedLearnedBloomFilter \<Rightarrow> string \<Rightarrow> error + SandwichedLearnedBloomFilter" where
  "insert_L1 hasher sb item =
     (case insert_bf hasher (L1_filter sb) item of
        Inl e \<Rightarrow> Inl e
      | Inr l1 \<Rightarrow> Inr (sb\<lparr>L1_filter := l1\<rparr>))"

definition insert_L3 ::
  "string_hash \<Rightarrow> SandwichedLearnedBloomFilter \<Rightarrow> string \<Rightarrow> error + SandwichedLearnedBloomFilter" where
  "insert_L3 hasher sb item =
     (case insert_bf hasher (L3_filter sb) item of
        Inl e \<Rightarrow> Inl e
      | Inr l3 \<Rightarrow> Inr (sb\<lparr>L3_filter := l3\<rparr>))"

definition query ::
  "classifier \<Rightarrow> string_hash \<Rightarrow> SandwichedLearnedBloomFilter \<Rightarrow> string \<Rightarrow> error + bool" where
  "query evaluate_model hasher sb item =
     (case possibly_contains hasher (L1_filter sb) item of
        Inl e \<Rightarrow> Inl e
      | Inr in_L1 \<Rightarrow>
          if \<not> in_L1 then Inr False
          else
            (case extract_features item of
               Inl e \<Rightarrow> Inl e
             | Inr (f0, f1, f2) \<Rightarrow>
                 if evaluate_model f0 f1 f2 then Inr True
                 else possibly_contains hasher (L3_filter sb) item))"

text \<open>
  The sum of the two sizes is an \<open>int\<close> addition; a sum outside the range of \<open>int\<close> is
  undefined behaviour, modelled as an error.
\<close>

definition SLBF_get_memory_bits :: "SandwichedLearnedBloomFilter \<Rightarrow> error + int" where
  "SLBF_get_memory_bits sb =
     (let r = get_memory_bits (L1_filter sb) + get_memory_bits (L3_filter sb)
      in if is_int r then Inr r else Inl Signed_overflow)"

section \<open>The population loop of main\<close>

text \<open>
  The \<open>i\<close>-th generated malicious URL.
\<close>

definition malicious_url :: "int \<Rightarrow> string" where
  "malicious_url i = ''http://bad-hacker-site-'' @ to_string i @ ''.com''"

text \<open>
  The loop that fills \<open>malicious_urls\<close>, for a loop bound \<open>count\<close>; main uses 5000.
\<close>

definition generated_urls :: "nat \<Rightarrow> string list" where
  "generated_urls count = map (\<lambda>i. malicious_url (int i)) [0..<count]"

definition malicious_urls :: "string list" where
  "malicious_urls = generated_urls 5000"

record benchmark =
  standard_bf :: StandardBloomFilter
  learned_bf :: SandwichedLearnedBloomFilter

text \<open>
  The loop \<open>for (const auto& url : malicious_urls)\<close>. The results of the successive calls
  of \<open>rand()\<close> are the function \<open>rand\<close>, with \<open>n\<close> the number of calls made so far; \<open>rand()\<close>
  returns a non-negative value.
\<close>

fun populate ::
  "string_hash \<Rightarrow> (nat \<Rightarrow> nat) \<Rightarrow> nat \<Rightarrow> string list \<Rightarrow> benchmark \<Rightarrow> error + benchmark" where
  "populate hasher rand n [] st = Inr st"
| "populate hasher rand n (url # urls) st =
     (case insert_bf hasher (standard_bf st) url of
        Inl e \<Rightarrow> Inl e
      | Inr s1 \<Rightarrow>
          (case insert_L1 hasher (learned_bf st) url of
             Inl e \<Rightarrow> Inl e
           | Inr l1 \<Rightarrow>
               if rand n mod 100 < 10 then
                 (case insert_L3 hasher l1 url of
                    Inl e \<Rightarrow> Inl e
                  | Inr l2 \<Rightarrow>
                      populate hasher rand (Suc n) urls \<lparr>standard_bf = s1, learned_bf = l2\<rparr>)
               else populate hasher rand (Suc n) urls \<lparr>standard_bf = s1, learned_bf = l1\<rparr>))"

section \<open>Call sequences on the sandwiched filter\<close>

datatype sandwich_call = Insert_L1 string | Insert_L3 string

fun apply_call ::
  "string_hash \<Rightarrow> SandwichedLearnedBloomFilter \<Rightarrow> sandwich_call \<Rightarrow> error + SandwichedLearnedBloomFilter" where
  "apply_call hasher sb (Insert_L1 item) = insert_L1 hasher sb item"
| "apply_call hasher sb (Insert_L3 item) = insert_L3 hasher sb item"

fun apply_calls ::
  "string_hash \<Rightarrow> SandwichedLearnedBloomFilter \<Rightarrow> sandwich_call list \<Rightarrow> error + SandwichedLearnedBloomFilter" where
  "apply_calls hasher sb [] = Inr sb"
| "apply_calls hasher sb (c # cs) =
     (case apply_call hasher sb c of
        Inl e \<Rightarrow> Inl e
      | Inr sb' \<Rightarrow> apply_calls hasher sb' cs)"

text \<open>The calls that the population loop of main makes on \<open>learned_bf\<close>, in order.\<close>

fun populate_calls :: "(nat \<Rightarrow> nat) \<Rightarrow> nat \<Rightarrow> string list \<Rightarrow> sandwich_call list" where
  "populate_calls rand n [] = []"
| "populate_calls rand n (url # urls) =
     Insert_L1 url # (if rand n mod 100 < 10 then [Insert_L3 url] else [])
       @ populate_calls rand (Suc n) urls"

text \<open>A sequence of \<open>insert\<close> calls on a standard filter.\<close>

fun insert_all :: "string_hash \<Rightarrow> StandardBloomFilter \<Rightarrow> string list \<Rightarrow> error + StandardBloomFilter" where
  "insert_all hasher b [] = Inr b"
| "insert_all hasher b (item # items) =
     (case insert_bf hasher b item of
        Inl e \<Rightarrow> Inl e
      | Inr b' \<Rightarrow> insert_all hasher b' items)"

section \<open>Auxiliary notions\<close>

text \<open>
  The prediction of the classifier on the features of a key, as \<open>query\<close> obtains it:
  there is none when the extraction of the features does not return.
\<close>

definition prediction :: "classifier \<Rightarrow> string \<Rightarrow> error + bool" where
  "prediction evaluate_model item =
     (case extract_features item of
        Inl e \<Rightarrow> Inl e
      | Inr (f0, f1, f2) \<Rightarrow> Inr (evaluate_model f0 f1 f2))"

text \<open>
  The numbers of digit and of hyphen characters of a key, and the keys on which both
  numbers are values of type \<open>int\<close>.
\<close>

definition digit_count :: "string \<Rightarrow> nat" where
  "digit_count item = length (filter isdigit item)"

definition hyphen_count :: "string \<Rightarrow> nat" where
  "hyphen_count item = length (filter (\<lambda>c. c = CHR ''-'') item)"

definition counters_fit :: "string \<Rightarrow> bool" where
  "counters_fit item \<longleftrightarrow>
     int (digit_count item) \<le> INT_MAX \<and> int (hyphen_count item) \<le> INT_MAX"

text \<open>
  The state of a filter whose construction succeeded: the size is a non-negative \<open>int\<close>
  and the bit array has exactly that many bits.
\<close>

definition well_formed :: "StandardBloomFilter \<Rightarrow> bool" where
  "well_formed b \<longleftrightarrow>
     0 \<le> size_bf b \<and> size_bf b \<le> INT_MAX \<and> length (bit_array b) = nat (size_bf b)"

text \<open>A sandwiched filter both of whose layers were constructed with a positive size.\<close>

definition operational :: "SandwichedLearnedBloomFilter \<Rightarrow> bool" where
  "operational sb \<longleftrightarrow>
     well_formed (L1_filter sb) \<and> 0 < size_bf (L1_filter sb)
     \<and> well_formed (L3_filter sb) \<and> 0 < size_bf (L3_filter sb)"

text \<open>A later state of a filter: the same parameters, and no bit cleared.\<close>

definition grown :: "StandardBloomFilter \<Rightarrow> StandardBloomFilter \<Rightarrow> bool" where
  "grown b b' \<longleftrightarrow>
     size_bf b' = size_bf b \<and> num_hashes b' = num_hashes b
     \<and> length (bit_array b') = length (bit_array b)
     \<and> (\<forall>n < length (bit_array b). bit_array b ! n \<longrightarrow> bit_array b' ! n)"

definition count_set_bits :: "StandardBloomFilter \<Rightarrow> nat" where
  "count_set_bits b = length (filter (\<lambda>x. x) (bit_array b))"

text \<open>
  The query protocol in the words of the specification, on the three answers involved:
  false if L1 says no; otherwise true if the classifier predicts member; otherwise the
  answer of L3.
\<close>

definition query_spec :: "bool \<Rightarrow> bool \<Rightarrow> bool \<Rightarrow> bool" where
  "query_spec in_L1 member in_L3 = (if \<not> in_L1 then False else if member then True else in_L3)"

text \<open>
  Concrete instances of the parameters, used to run the model on examples: a string hash,
  two classifiers, and a \<open>rand()\<close> that returns the same value at every call.
\<close>

definition example_hasher :: string_hash where
  "example_hasher s = of_nat (sum_list (map of_char s))"

definition reject_all :: classifier where
  "reject_all f0 f1 f2 = False"

definition has_hyphen :: classifier where
  "has_hyphen f0 f1 f2 \<longleftrightarrow> 0 < f2"

definition fixed_rand :: "nat \<Rightarrow> nat \<Rightarrow> nat" where
  "fixed_rand v n = v"

definition example_rand :: "nat \<Rightarrow> nat" where
  "example_rand n = (if n = 0 then 50 else 5)"

section \<open>Conversions, hash and constructor\<close>

lemma size_t_of_int_nonneg: "0 \<le> x \<Longrightarrow> x \<le> INT_MAX \<Longrightarrow> size_t_of_int x = nat x"
  by (simp add: size_t_of_int_def INT_MAX_def)

lemma int_of_size_t_small: "int n \<le> INT_MAX \<Longrightarrow> int_of_size_t n = int n"
  by (simp add: int_of_size_t_def INT_MAX_def Let_def)

lemma hash_in_range:
  assumes "well_formed b" "0 < size_bf b"
  shows "\<exists>idx. hash hasher b item seed = Inr idx \<and> 0 \<le> idx \<and> idx < size_bf b
           \<and> size_t_of_int idx < length (bit_array b)"
proof -
  let ?s = "size_bf b"
  let ?r = "unat (hasher (item @ to_string seed)) mod nat ?s"
  from assms have s: "0 < ?s" "?s \<le> INT_MAX" "length (bit_array b) = nat ?s"
    by (simp_all add: well_formed_def)
  have m: "size_t_of_int ?s = nat ?s"
    using s by (simp add: size_t_of_int_nonneg)
  have r: "?r < nat ?s" using s by simp
  then have ri: "int ?r < ?s" by linarith
  then have "int ?r \<le> INT_MAX" using s by linarith
  then have c: "int_of_size_t ?r = int ?r" by (rule int_of_size_t_small)
  have h: "hash hasher b item seed = Inr (int ?r)"
    using s m c by (simp add: hash_def Let_def)
  have "size_t_of_int (int ?r) = ?r"
    using \<open>int ?r \<le> INT_MAX\<close> by (simp add: size_t_of_int_nonneg)
  with h ri r s show ?thesis by simp
qed

lemma hash_cong: "size_bf b' = size_bf b \<Longrightarrow> hash hasher b' item seed = hash hasher b item seed"
  by (simp add: hash_def)

lemma hash_bit_array_update:
  "hash hasher (b\<lparr>bit_array := xs\<rparr>) item seed = hash hasher b item seed"
  by (simp add: hash_def)

lemma hash_zero_size: "size_bf b = 0 \<Longrightarrow> hash hasher b item seed = Inl Division_by_zero"
  by (simp add: hash_def size_t_of_int_def)

lemma ctor_well_formed:
  "0 \<le> s \<Longrightarrow> s \<le> INT_MAX \<Longrightarrow>
     StandardBloomFilter_ctor s k = Inr \<lparr>bit_array = replicate (nat s) False, size_bf = s, num_hashes = k\<rparr>
     \<and> well_formed \<lparr>bit_array = replicate (nat s) False, size_bf = s, num_hashes = k\<rparr>"
  by (simp add: StandardBloomFilter_ctor_def size_t_of_int_nonneg well_formed_def
      vector_max_size_def INT_MAX_def Let_def)

lemma ctor_negative:
  "INT_MIN \<le> s \<Longrightarrow> s < 0 \<Longrightarrow> StandardBloomFilter_ctor s k = Inl Length_error"
proof -
  assume a: "INT_MIN \<le> s" "s < 0"
  have "(s + 2 ^ 64) mod 2 ^ 64 = s + 2 ^ 64"
    using a by (intro mod_pos_pos_trivial) (simp_all add: INT_MIN_def)
  then have "s mod 2 ^ 64 = s + 2 ^ 64" by simp
  then have "size_t_of_int s = nat (s + 2 ^ 64)" by (simp add: size_t_of_int_def)
  moreover have "vector_max_size < nat (s + 2 ^ 64)"
    using a by (simp add: vector_max_size_def INT_MIN_def)
  ultimately show ?thesis by (simp add: StandardBloomFilter_ctor_def Let_def)
qed

lemma ctor_fields:
  "StandardBloomFilter_ctor s k = Inr b \<Longrightarrow> size_bf b = s \<and> num_hashes b = k"
  by (auto simp: StandardBloomFilter_ctor_def Let_def split: if_splits)

lemma ctor_nonneg:
  "is_int s \<Longrightarrow> StandardBloomFilter_ctor s k = Inr b \<Longrightarrow> 0 \<le> s"
  using ctor_negative[of s k] by (cases "s < 0") (simp_all add: is_int_def)

section \<open>The loops of insert and possibly_contains\<close>

lemma insert_loop_frame:
  "insert_loop hasher item i b = Inr b' \<Longrightarrow>
     size_bf b' = size_bf b \<and> num_hashes b' = num_hashes b
     \<and> length (bit_array b') = length (bit_array b)
     \<and> (\<forall>n < length (bit_array b). bit_array b ! n \<longrightarrow> bit_array b' ! n)"
proof (induction hasher item i b rule: insert_loop.induct)
  case (1 hasher item i b)
  show ?case
  proof (cases "i < num_hashes b")
    case False
    with "1.prems" show ?thesis by (simp add: insert_loop.simps)
  next
    case True
    from True "1.prems" obtain idx where
      h: "hash hasher b item i = Inr idx" and
      r: "size_t_of_int idx < length (bit_array b)" and
      rec: "insert_loop hasher item (i + 1)
              (b\<lparr>bit_array := (bit_array b)[size_t_of_int idx := True]\<rparr>) = Inr b'"
      by (subst (asm) insert_loop.simps) (auto simp: Let_def split: sum.splits if_splits)
    have up: "bit_array b ! n \<Longrightarrow> (bit_array b)[size_t_of_int idx := True] ! n"
      if "n < length (bit_array b)" for n
      using that by (cases "n = size_t_of_int idx") simp_all
    from "1.IH"[OF True h refl r rec]
    have ih: "size_bf b' = size_bf b" "num_hashes b' = num_hashes b"
      "length (bit_array b') = length (bit_array b)"
      "\<forall>n < length (bit_array b). (bit_array b)[size_t_of_int idx := True] ! n \<longrightarrow> bit_array b' ! n"
      by simp_all
    from ih(4) up have "\<forall>n < length (bit_array b). bit_array b ! n \<longrightarrow> bit_array b' ! n"
      by blast
    with ih(1-3) show ?thesis by simp
  qed
qed

lemma insert_loop_sets:
  "insert_loop hasher item i b = Inr b' \<Longrightarrow> i \<le> j \<Longrightarrow> j < num_hashes b \<Longrightarrow>
     \<exists>idx. hash hasher b item j = Inr idx \<and> size_t_of_int idx < length (bit_array b)
        \<and> bit_array b' ! size_t_of_int idx"
proof (induction hasher item i b rule: insert_loop.induct)
  case (1 hasher item i b)
  from "1.prems" have True: "i < num_hashes b" by simp
  let ?b1 = "\<lambda>idx. b\<lparr>bit_array := (bit_array b)[size_t_of_int idx := True]\<rparr>"
  from True "1.prems"(1) obtain idx where
    h: "hash hasher b item i = Inr idx" and
    r: "size_t_of_int idx < length (bit_array b)" and
    rec: "insert_loop hasher item (i + 1) (?b1 idx) = Inr b'"
    by (subst (asm) insert_loop.simps) (auto simp: Let_def split: sum.splits if_splits)
  show ?case
  proof (cases "j = i")
    case True
    have "bit_array (?b1 idx) ! size_t_of_int idx" using r by simp
    moreover have "size_t_of_int idx < length (bit_array (?b1 idx))" using r by simp
    ultimately have "bit_array b' ! size_t_of_int idx"
      using insert_loop_frame[OF rec] by blast
    with h r True show ?thesis by simp
  next
    case False
    with "1.prems" have "i + 1 \<le> j" "j < num_hashes (?b1 idx)" by simp_all
    from "1.IH"[OF True h refl r rec this]
    show ?thesis by (simp add: hash_bit_array_update)
  qed
qed

lemma insert_loop_total:
  "well_formed b \<Longrightarrow> 0 < size_bf b \<Longrightarrow> \<exists>b'. insert_loop hasher item i b = Inr b'"
proof (induction hasher item i b rule: insert_loop.induct)
  case (1 hasher item i b)
  show ?case
  proof (cases "i < num_hashes b")
    case False
    then show ?thesis by (simp add: insert_loop.simps)
  next
    case True
    from hash_in_range[OF "1.prems", of hasher item i] obtain idx where
      h: "hash hasher b item i = Inr idx" and
      r: "size_t_of_int idx < length (bit_array b)" by blast
    let ?b1 = "b\<lparr>bit_array := (bit_array b)[size_t_of_int idx := True]\<rparr>"
    have "well_formed ?b1" "0 < size_bf ?b1"
      using "1.prems" by (simp_all add: well_formed_def)
    from "1.IH"[OF True h refl r this] obtain b' where
      "insert_loop hasher item (i + 1) ?b1 = Inr b'" by blast
    with True h r show ?thesis
      by (subst insert_loop.simps) (simp add: Let_def)
  qed
qed

lemma contains_loop_all_set:
  "(\<And>j. i \<le> j \<Longrightarrow> j < num_hashes b \<Longrightarrow>
      \<exists>idx. hash hasher b item j = Inr idx \<and> size_t_of_int idx < length (bit_array b)
         \<and> bit_array b ! size_t_of_int idx)
   \<Longrightarrow> contains_loop hasher item i b = Inr True"
proof (induction hasher item i b rule: contains_loop.induct)
  case (1 hasher item i b)
  show ?case
  proof (cases "i < num_hashes b")
    case False
    then show ?thesis by (simp add: contains_loop.simps)
  next
    case True
    from "1.prems"[of i] True obtain idx where
      h: "hash hasher b item i = Inr idx" and
      r: "size_t_of_int idx < length (bit_array b)" and
      s: "bit_array b ! size_t_of_int idx" by auto
    have "contains_loop hasher item (i + 1) b = Inr True"
    proof (rule "1.IH"[OF True h refl r])
      show "\<not> \<not> bit_array b ! size_t_of_int idx" using s by simp
    next
      fix j assume "i + 1 \<le> j" "j < num_hashes b"
      then show "\<exists>idx. hash hasher b item j = Inr idx \<and> size_t_of_int idx < length (bit_array b)
         \<and> bit_array b ! size_t_of_int idx"
        using "1.prems"[of j] by simp
    qed
    with True h r s show ?thesis
      by (subst contains_loop.simps) (simp add: Let_def)
  qed
qed

lemma insert_loop_all_set:
  "(\<And>j. i \<le> j \<Longrightarrow> j < num_hashes b \<Longrightarrow>
      \<exists>idx. hash hasher b item j = Inr idx \<and> size_t_of_int idx < length (bit_array b)
         \<and> bit_array b ! size_t_of_int idx)
   \<Longrightarrow> insert_loop hasher item i b = Inr b"
proof (induction hasher item i b rule: insert_loop.induct)
  case (1 hasher item i b)
  show ?case
  proof (cases "i < num_hashes b")
    case False
    then show ?thesis by (simp add: insert_loop.simps)
  next
    case True
    from "1.prems"[of i] True obtain idx where
      h: "hash hasher b item i = Inr idx" and
      r: "size_t_of_int idx < length (bit_array b)" and
      s: "bit_array b ! size_t_of_int idx" by auto
    have same: "b\<lparr>bit_array := (bit_array b)[size_t_of_int idx := True]\<rparr> = b"
    proof -
      have "(bit_array b)[size_t_of_int idx := True] = bit_array b"
        using r s by (simp add: list_update_same_conv)
      then show ?thesis by simp
    qed
    have "insert_loop hasher item (i + 1) (b\<lparr>bit_array := (bit_array b)[size_t_of_int idx := True]\<rparr>)
            = Inr (b\<lparr>bit_array := (bit_array b)[size_t_of_int idx := True]\<rparr>)"
    proof (rule "1.IH"[OF True h refl r])
      fix j assume "i + 1 \<le> j"
        "j < num_hashes (b\<lparr>bit_array := (bit_array b)[size_t_of_int idx := True]\<rparr>)"
      then show "\<exists>idxa. hash hasher (b\<lparr>bit_array := (bit_array b)[size_t_of_int idx := True]\<rparr>) item j = Inr idxa
          \<and> size_t_of_int idxa < length (bit_array (b\<lparr>bit_array := (bit_array b)[size_t_of_int idx := True]\<rparr>))
          \<and> bit_array (b\<lparr>bit_array := (bit_array b)[size_t_of_int idx := True]\<rparr>) ! size_t_of_int idxa"
        unfolding same using "1.prems"[of j] by simp
    qed
    with True h r same show ?thesis
      by (subst insert_loop.simps) (simp add: Let_def)
  qed
qed

lemma insert_bf_frame:
  "insert_bf hasher b item = Inr b' \<Longrightarrow>
     size_bf b' = size_bf b \<and> num_hashes b' = num_hashes b
     \<and> length (bit_array b') = length (bit_array b)
     \<and> (\<forall>n < length (bit_array b). bit_array b ! n \<longrightarrow> bit_array b' ! n)"
  unfolding insert_bf_def by (rule insert_loop_frame)

lemma insert_all_frame:
  "insert_all hasher b items = Inr b' \<Longrightarrow>
     size_bf b' = size_bf b \<and> num_hashes b' = num_hashes b
     \<and> length (bit_array b') = length (bit_array b)
     \<and> (\<forall>n < length (bit_array b). bit_array b ! n \<longrightarrow> bit_array b' ! n)"
proof (induction items arbitrary: b)
  case Nil
  then show ?case by simp
next
  case (Cons item items)
  from Cons.prems obtain b1 where
    s1: "insert_bf hasher b item = Inr b1" and s2: "insert_all hasher b1 items = Inr b'"
    by (auto split: sum.splits)
  from insert_bf_frame[OF s1] Cons.IH[OF s2] show ?case by simp
qed

lemma insert_bf_well_formed:
  "well_formed b \<Longrightarrow> insert_bf hasher b item = Inr b' \<Longrightarrow> well_formed b'"
  using insert_bf_frame[of hasher b item b'] by (simp add: well_formed_def)

lemma insert_bf_total:
  "well_formed b \<Longrightarrow> 0 < size_bf b \<Longrightarrow> \<exists>b'. insert_bf hasher b item = Inr b'"
  unfolding insert_bf_def by (rule insert_loop_total)

lemma insert_all_total:
  "well_formed b \<Longrightarrow> 0 < size_bf b \<Longrightarrow> \<exists>b'. insert_all hasher b items = Inr b'"
proof (induction items arbitrary: b)
  case Nil
  then show ?case by simp
next
  case (Cons item items)
  from insert_bf_total[OF Cons.prems] obtain b1 where s1: "insert_bf hasher b item = Inr b1"
    by blast
  have "well_formed b1" using Cons.prems(1) s1 by (rule insert_bf_well_formed)
  moreover have "0 < size_bf b1" using insert_bf_frame[OF s1] Cons.prems(2) by simp
  ultimately obtain b' where "insert_all hasher b1 items = Inr b'"
    using Cons.IH by blast
  with s1 show ?case by simp
qed

text \<open>A key inserted earlier is reported present in every later state of the filter.\<close>

lemma inserted_still_contained:
  assumes ins: "insert_bf hasher b item = Inr b1"
    and later: "size_bf b2 = size_bf b1" "num_hashes b2 = num_hashes b1"
      "length (bit_array b2) = length (bit_array b1)"
      "\<forall>n < length (bit_array b1). bit_array b1 ! n \<longrightarrow> bit_array b2 ! n"
  shows "possibly_contains hasher b2 item = Inr True"
  unfolding possibly_contains_def
proof (rule contains_loop_all_set)
  fix j :: int
  assume j: "0 \<le> j" "j < num_hashes b2"
  from insert_bf_frame[OF ins] have fr: "size_bf b1 = size_bf b" "num_hashes b1 = num_hashes b"
    "length (bit_array b1) = length (bit_array b)" by simp_all
  from j later fr have "j < num_hashes b" by simp
  from insert_loop_sets[OF ins[unfolded insert_bf_def] j(1) this] obtain idx where
    h: "hash hasher b item j = Inr idx" and
    r: "size_t_of_int idx < length (bit_array b)" and
    s: "bit_array b1 ! size_t_of_int idx" by blast
  have "hash hasher b2 item j = hash hasher b item j"
    by (rule hash_cong) (simp add: later fr)
  moreover have "bit_array b2 ! size_t_of_int idx"
    using later(4) r s fr by simp
  ultimately show "\<exists>idx. hash hasher b2 item j = Inr idx
      \<and> size_t_of_int idx < length (bit_array b2) \<and> bit_array b2 ! size_t_of_int idx"
    using h r later fr by simp
qed

lemma contains_loop_total:
  "well_formed b \<Longrightarrow> 0 < size_bf b \<Longrightarrow> \<exists>r. contains_loop hasher item i b = Inr r"
proof (induction hasher item i b rule: contains_loop.induct)
  case (1 hasher item i b)
  show ?case
  proof (cases "i < num_hashes b")
    case False
    then show ?thesis by (subst contains_loop.simps) auto
  next
    case True
    from hash_in_range[OF "1.prems", of hasher item i] obtain idx where
      h: "hash hasher b item i = Inr idx" and
      r: "size_t_of_int idx < length (bit_array b)" by blast
    show ?thesis
    proof (cases "bit_array b ! size_t_of_int idx")
      case False
      with True h r have "contains_loop hasher item i b = Inr False"
        by (subst contains_loop.simps) (simp add: Let_def)
      then show ?thesis by blast
    next
      case set: True
      then have "\<not> \<not> bit_array b ! size_t_of_int idx" by simp
      from "1.IH"[OF True h refl r this "1.prems"] obtain res where
        "contains_loop hasher item (i + 1) b = Inr res" by blast
      with True h r set show ?thesis
        by (subst contains_loop.simps) (simp add: Let_def)
    qed
  qed
qed

lemma possibly_contains_total:
  "well_formed b \<Longrightarrow> 0 < size_bf b \<Longrightarrow> \<exists>r. possibly_contains hasher b item = Inr r"
  unfolding possibly_contains_def by (rule contains_loop_total)

lemma fresh_contains_loop:
  assumes "0 < s" "s \<le> INT_MAX"
  shows "contains_loop hasher item 0 \<lparr>bit_array = replicate (nat s) False, size_bf = s, num_hashes = k\<rparr>
           = Inr (k \<le> 0)"
proof -
  let ?b = "\<lparr>bit_array = replicate (nat s) False, size_bf = s, num_hashes = k\<rparr>"
  have w: "well_formed ?b" using assms by (simp add: well_formed_def)
  have p: "0 < size_bf ?b" using assms by simp
  from hash_in_range[OF w p, of hasher item 0] obtain idx where
    h: "hash hasher ?b item 0 = Inr idx" and
    r: "size_t_of_int idx < length (bit_array ?b)" by blast
  from r have "\<not> bit_array ?b ! size_t_of_int idx" by simp
  with h r show ?thesis
    by (subst contains_loop.simps) (simp add: Let_def)
qed

lemma count_true_mono:
  "length xs = length ys \<Longrightarrow> \<forall>n < length xs. xs ! n \<longrightarrow> ys ! n \<Longrightarrow>
     length (filter (\<lambda>x. x) xs) \<le> length (filter (\<lambda>x. x) ys)"
  by (induction xs ys rule: list_induct2) (auto simp: All_less_Suc2)

section \<open>Feature extraction\<close>

text \<open>
  The loop returns the two counts when both fit into an \<open>int\<close>, and overflows otherwise.
\<close>

lemma extract_loop_counts:
  "f1 \<le> INT_MAX \<Longrightarrow> f2 \<le> INT_MAX \<Longrightarrow>
     extract_loop item f1 f2 =
       (if f1 + int (digit_count item) \<le> INT_MAX \<and> f2 + int (hyphen_count item) \<le> INT_MAX
        then Inr (f1 + int (digit_count item), f2 + int (hyphen_count item))
        else Inl Signed_overflow)"
proof (induction item arbitrary: f1 f2)
  case Nil
  then show ?case by (simp add: digit_count_def hyphen_count_def)
next
  case (Cons c cs)
  have dc: "digit_count (c # cs) = (if isdigit c then 1 else 0) + digit_count cs"
    by (simp add: digit_count_def)
  have hc: "hyphen_count (c # cs) = (if c = CHR ''-'' then 1 else 0) + hyphen_count cs"
    by (simp add: hyphen_count_def)
  show ?case
  proof (cases "isdigit c \<and> f1 = INT_MAX")
    case True
    then show ?thesis by (simp add: int_increment_def dc)
  next
    case d: False
    define f1' where "f1' = (if isdigit c then f1 + 1 else f1)"
    have s1: "(if isdigit c then int_increment f1 else Inr f1) = Inr f1'" and b1: "f1' \<le> INT_MAX"
      using d Cons.prems(1) by (auto simp: int_increment_def f1'_def)
    show ?thesis
    proof (cases "c = CHR ''-'' \<and> f2 = INT_MAX")
      case True
      have e: "extract_loop (c # cs) f1 f2 = Inl Signed_overflow"
        using True s1 by (simp add: int_increment_def)
      have "\<not> f2 + int (hyphen_count (c # cs)) \<le> INT_MAX"
        using True hc by simp
      then show ?thesis using e by simp
    next
      case h: False
      define f2' where "f2' = (if c = CHR ''-'' then f2 + 1 else f2)"
      have s2: "(if c = CHR ''-'' then int_increment f2 else Inr f2) = Inr f2'"
        and b2: "f2' \<le> INT_MAX"
        using h Cons.prems(2) by (auto simp: int_increment_def f2'_def)
      have e1: "f1' + int (digit_count cs) = f1 + int (digit_count (c # cs))"
        by (simp add: f1'_def dc)
      have e2: "f2' + int (hyphen_count cs) = f2 + int (hyphen_count (c # cs))"
        by (simp add: f2'_def hc)
      have "extract_loop (c # cs) f1 f2 = extract_loop cs f1' f2'"
        using s1 s2 by simp
      also have "\<dots> =
        (if f1' + int (digit_count cs) \<le> INT_MAX \<and> f2' + int (hyphen_count cs) \<le> INT_MAX
         then Inr (f1' + int (digit_count cs), f2' + int (hyphen_count cs))
         else Inl Signed_overflow)"
        using b1 b2 by (rule Cons.IH)
      finally show ?thesis by (simp only: e1 e2)
    qed
  qed
qed

lemma extract_features_counts:
  "extract_features item =
     (if counters_fit item
      then Inr (int_of_size_t (length item), int (digit_count item), int (hyphen_count item))
      else Inl Signed_overflow)"
proof -
  have "(0::int) \<le> INT_MAX" by (simp add: INT_MAX_def)
  from extract_loop_counts[OF this this, of item] show ?thesis
    by (simp add: extract_features_def counters_fit_def Let_def)
qed

lemma prediction_returns:
  "counters_fit item \<Longrightarrow> \<exists>member. prediction evaluate_model item = Inr member"
  by (simp add: prediction_def extract_features_counts)

lemma prediction_overflow:
  "\<not> counters_fit item \<Longrightarrow> prediction evaluate_model item = Inl Signed_overflow"
  by (simp add: prediction_def extract_features_counts)

text \<open>
  On a key with more than \<open>INT_MAX\<close> digits or hyphens the counter overflows, and a
  \<open>query\<close> that gets past L1 does not return an answer.
\<close>

lemma query_counter_overflow:
  "possibly_contains hasher (L1_filter sb) item = Inr True \<Longrightarrow> \<not> counters_fit item \<Longrightarrow>
     query evaluate_model hasher sb item = Inl Signed_overflow"
  by (simp add: query_def extract_features_counts)

lemma extract_features_overflow_example:
  "extract_features (replicate 2147483648 CHR ''0'') = Inl Signed_overflow"
proof -
  have "isdigit CHR ''0''" by (simp add: isdigit_def)
  then have "digit_count (replicate 2147483648 CHR ''0'') = 2147483648"
    by (simp add: digit_count_def)
  then have "\<not> counters_fit (replicate 2147483648 CHR ''0'')"
    by (simp add: counters_fit_def INT_MAX_def)
  then show ?thesis by (simp add: extract_features_counts)
qed

section \<open>Call sequences\<close>

lemma grown_refl: "grown b b"
  by (simp add: grown_def)

lemma grown_trans: "grown b b' \<Longrightarrow> grown b' b'' \<Longrightarrow> grown b b''"
  by (simp add: grown_def)

lemma insert_bf_grown: "insert_bf hasher b item = Inr b' \<Longrightarrow> grown b b'"
  using insert_bf_frame[of hasher b item b'] by (simp add: grown_def)

lemma apply_call_grown:
  "apply_call hasher sb c = Inr sb' \<Longrightarrow>
     grown (L1_filter sb) (L1_filter sb') \<and> grown (L3_filter sb) (L3_filter sb')"
  by (cases c) (auto simp: insert_L1_def insert_L3_def grown_refl insert_bf_grown split: sum.splits)

lemma apply_calls_grown:
  "apply_calls hasher sb cs = Inr sb' \<Longrightarrow>
     grown (L1_filter sb) (L1_filter sb') \<and> grown (L3_filter sb) (L3_filter sb')"
proof (induction cs arbitrary: sb)
  case Nil
  then show ?case by (simp add: grown_refl)
next
  case (Cons c cs)
  from Cons.prems obtain sb1 where
    s1: "apply_call hasher sb c = Inr sb1" and s2: "apply_calls hasher sb1 cs = Inr sb'"
    by (auto split: sum.splits)
  from apply_call_grown[OF s1] Cons.IH[OF s2] show ?case
    by (blast intro: grown_trans)
qed

lemma inserted_grown_contained:
  assumes "insert_bf hasher b item = Inr b1" and "grown b1 b2"
  shows "possibly_contains hasher b2 item = Inr True"
proof -
  from assms(2) have later: "size_bf b2 = size_bf b1" "num_hashes b2 = num_hashes b1"
    "length (bit_array b2) = length (bit_array b1)"
    "\<forall>n < length (bit_array b1). bit_array b1 ! n \<longrightarrow> bit_array b2 ! n"
    by (simp_all add: grown_def)
  show ?thesis by (rule inserted_still_contained[OF assms(1) later])
qed

lemma apply_calls_L1_contained:
  "apply_calls hasher sb cs = Inr sb' \<Longrightarrow> Insert_L1 key \<in> set cs \<Longrightarrow>
     possibly_contains hasher (L1_filter sb') key = Inr True"
proof (induction cs arbitrary: sb)
  case Nil
  then show ?case by simp
next
  case (Cons c cs)
  from Cons.prems(1) obtain sb1 where
    s1: "apply_call hasher sb c = Inr sb1" and s2: "apply_calls hasher sb1 cs = Inr sb'"
    by (auto split: sum.splits)
  show ?case
  proof (cases "c = Insert_L1 key")
    case True
    with s1 have "insert_bf hasher (L1_filter sb) key = Inr (L1_filter sb1)"
      by (auto simp: insert_L1_def split: sum.splits)
    moreover from apply_calls_grown[OF s2] have "grown (L1_filter sb1) (L1_filter sb')" by simp
    ultimately show ?thesis by (rule inserted_grown_contained)
  next
    case False
    with Cons.prems(2) have "Insert_L1 key \<in> set cs" by simp
    with s2 show ?thesis by (rule Cons.IH)
  qed
qed

lemma apply_calls_L3_contained:
  "apply_calls hasher sb cs = Inr sb' \<Longrightarrow> Insert_L3 key \<in> set cs \<Longrightarrow>
     possibly_contains hasher (L3_filter sb') key = Inr True"
proof (induction cs arbitrary: sb)
  case Nil
  then show ?case by simp
next
  case (Cons c cs)
  from Cons.prems(1) obtain sb1 where
    s1: "apply_call hasher sb c = Inr sb1" and s2: "apply_calls hasher sb1 cs = Inr sb'"
    by (auto split: sum.splits)
  show ?case
  proof (cases "c = Insert_L3 key")
    case True
    with s1 have "insert_bf hasher (L3_filter sb) key = Inr (L3_filter sb1)"
      by (auto simp: insert_L3_def split: sum.splits)
    moreover from apply_calls_grown[OF s2] have "grown (L3_filter sb1) (L3_filter sb')" by simp
    ultimately show ?thesis by (rule inserted_grown_contained)
  next
    case False
    with Cons.prems(2) have "Insert_L3 key \<in> set cs" by simp
    with s2 show ?thesis by (rule Cons.IH)
  qed
qed

lemma apply_call_total:
  assumes "operational sb"
  shows "\<exists>sb'. apply_call hasher sb c = Inr sb' \<and> operational sb'"
proof (cases c)
  case (Insert_L1 item)
  from assms have w: "well_formed (L1_filter sb)" "0 < size_bf (L1_filter sb)"
    by (simp_all add: operational_def)
  from insert_bf_total[OF w] obtain l1 where s: "insert_bf hasher (L1_filter sb) item = Inr l1"
    by blast
  have "well_formed l1" using w(1) s by (rule insert_bf_well_formed)
  moreover have "0 < size_bf l1" using insert_bf_frame[OF s] w(2) by simp
  ultimately show ?thesis using Insert_L1 s assms
    by (simp add: insert_L1_def operational_def)
next
  case (Insert_L3 item)
  from assms have w: "well_formed (L3_filter sb)" "0 < size_bf (L3_filter sb)"
    by (simp_all add: operational_def)
  from insert_bf_total[OF w] obtain l3 where s: "insert_bf hasher (L3_filter sb) item = Inr l3"
    by blast
  have "well_formed l3" using w(1) s by (rule insert_bf_well_formed)
  moreover have "0 < size_bf l3" using insert_bf_frame[OF s] w(2) by simp
  ultimately show ?thesis using Insert_L3 s assms
    by (simp add: insert_L3_def operational_def)
qed

lemma apply_calls_total:
  "operational sb \<Longrightarrow> \<exists>sb'. apply_calls hasher sb cs = Inr sb' \<and> operational sb'"
proof (induction cs arbitrary: sb)
  case Nil
  then show ?case by simp
next
  case (Cons c cs)
  from apply_call_total[OF Cons.prems] obtain sb1 where
    s1: "apply_call hasher sb c = Inr sb1" and o1: "operational sb1" by blast
  from Cons.IH[OF o1] obtain sb' where "apply_calls hasher sb1 cs = Inr sb'" "operational sb'"
    by blast
  with s1 show ?case by simp
qed

section \<open>The population loop\<close>

lemma populate_learned:
  "populate hasher rand n urls st = Inr st' \<Longrightarrow>
     apply_calls hasher (learned_bf st) (populate_calls rand n urls) = Inr (learned_bf st')"
proof (induction urls arbitrary: n st)
  case Nil
  then show ?case by simp
next
  case (Cons url urls)
  from Cons.prems obtain s1 l1 where
    i0: "insert_bf hasher (standard_bf st) url = Inr s1" and
    i1: "insert_L1 hasher (learned_bf st) url = Inr l1"
    by (auto split: sum.splits)
  show ?case
  proof (cases "rand n mod 100 < 10")
    case True
    with Cons.prems i0 i1 obtain l2 where
      i3: "insert_L3 hasher l1 url = Inr l2" and
      rest: "populate hasher rand (Suc n) urls \<lparr>standard_bf = s1, learned_bf = l2\<rparr> = Inr st'"
      by (auto split: sum.splits)
    from Cons.IH[OF rest] True i1 i3 show ?thesis by simp
  next
    case False
    with Cons.prems i0 i1 have
      rest: "populate hasher rand (Suc n) urls \<lparr>standard_bf = s1, learned_bf = l1\<rparr> = Inr st'"
      by simp
    from Cons.IH[OF rest] False i1 show ?thesis by simp
  qed
qed

lemma populate_calls_L1:
  "Insert_L1 key \<in> set (populate_calls rand n urls) \<longleftrightarrow> key \<in> set urls"
  by (induction urls arbitrary: n) auto

lemma populate_calls_L3:
  "Insert_L3 key \<in> set (populate_calls rand n urls) \<longleftrightarrow>
     (\<exists>j < length urls. urls ! j = key \<and> rand (n + j) mod 100 < 10)"
  by (induction urls arbitrary: n) (auto simp: Ex_less_Suc2)

lemma generated_urls_nth:
  "j < count \<Longrightarrow> generated_urls count ! j = malicious_url (int j)"
  by (simp add: generated_urls_def)

lemma generated_urls_length: "length (generated_urls count) = count"
  by (simp add: generated_urls_def)

lemma first_url_generated: "malicious_url 0 \<in> set malicious_urls"
proof -
  have "generated_urls 5000 ! 0 \<in> set (generated_urls 5000)"
    by (rule nth_mem) (simp add: generated_urls_length)
  then show ?thesis
    by (simp add: malicious_urls_def generated_urls_nth)
qed

text \<open>
  Whatever the classifier predicts on a key, some result of \<open>rand()\<close> makes the population
  loop treat that key differently from the prediction.
\<close>

lemma population_ignores_classifier:
  "\<exists>rand. \<not> (Insert_L3 url \<in> set (populate_calls rand 0 [url])
               \<longleftrightarrow> prediction evaluate_model url = Inr False)"
proof (cases "prediction evaluate_model url = Inr False")
  case True
  then have "\<not> (Insert_L3 url \<in> set (populate_calls (fixed_rand 50) 0 [url])
               \<longleftrightarrow> prediction evaluate_model url = Inr False)"
    by (simp add: fixed_rand_def)
  then show ?thesis by blast
next
  case False
  then have "\<not> (Insert_L3 url \<in> set (populate_calls (fixed_rand 5) 0 [url])
               \<longleftrightarrow> prediction evaluate_model url = Inr False)"
    by (simp add: fixed_rand_def)
  then show ?thesis by blast
qed

section \<open>Standard filter: no false negatives\<close>

text \<open>
  Claim C4. On a StandardBloomFilter of positive size, with any number of hashes, the call
  \<open>insert(key)\<close> returns, any sequence of further \<open>insert\<close> calls with arbitrary keys
  returns, and afterwards \<open>possibly_contains(key)\<close> returns true.
\<close>

theorem standard_no_false_negatives:
  assumes "well_formed b" and "0 < size_bf b"
  shows "\<exists>b1 b2. insert_bf hasher b key = Inr b1
           \<and> insert_all hasher b1 others = Inr b2
           \<and> possibly_contains hasher b2 key = Inr True"
proof -
  from insert_bf_total[OF assms] obtain b1 where s1: "insert_bf hasher b key = Inr b1"
    by blast
  have w1: "well_formed b1" using assms(1) s1 by (rule insert_bf_well_formed)
  have p1: "0 < size_bf b1" using insert_bf_frame[OF s1] assms(2) by simp
  from insert_all_total[OF w1 p1] obtain b2 where s2: "insert_all hasher b1 others = Inr b2"
    by blast
  from insert_all_frame[OF s2] have "possibly_contains hasher b2 key = Inr True"
    by (intro inserted_still_contained[OF s1]) simp_all
  with s1 s2 show ?thesis by blast
qed

theorem standard_no_false_negatives_witness:
  "StandardBloomFilter_ctor 8 2 = Inr \<lparr>bit_array = replicate 8 False, size_bf = 8, num_hashes = 2\<rparr>
   \<and> well_formed \<lparr>bit_array = replicate 8 False, size_bf = 8, num_hashes = 2\<rparr>
   \<and> (\<exists>b1 b2. insert_bf example_hasher
                  \<lparr>bit_array = replicate 8 False, size_bf = 8, num_hashes = 2\<rparr> ''ab'' = Inr b1
         \<and> insert_all example_hasher b1 [''cd'', ''ab'', ''x''] = Inr b2
         \<and> possibly_contains example_hasher b2 ''ab'' = Inr True)"
proof -
  let ?b = "\<lparr>bit_array = replicate 8 False, size_bf = 8, num_hashes = 2\<rparr>"
  have c: "StandardBloomFilter_ctor 8 2 = Inr ?b \<and> well_formed ?b"
    using ctor_well_formed[of 8 2] by (simp add: INT_MAX_def)
  have p: "0 < size_bf ?b" by simp
  from c standard_no_false_negatives[of ?b example_hasher "''ab''" "[''cd'', ''ab'', ''x'']"] p
  show ?thesis by blast
qed

section \<open>Standard filter: idempotence of insert\<close>

text \<open>
  Claim C6. In every state of a StandardBloomFilter and for every key, a second
  \<open>insert(key)\<close> right after a first one that returned leaves exactly the state the
  first one produced; on a constructed filter of positive size the first one returns.
\<close>

theorem insert_idempotent:
  "(\<forall>b1. insert_bf hasher b item = Inr b1 \<longrightarrow> insert_bf hasher b1 item = Inr b1)
   \<and> (well_formed b \<and> 0 < size_bf b \<longrightarrow> (\<exists>b1. insert_bf hasher b item = Inr b1))"
proof (intro conjI allI impI)
  fix b1
  assume ins: "insert_bf hasher b item = Inr b1"
  from insert_bf_frame[OF ins] have fr: "size_bf b1 = size_bf b" "num_hashes b1 = num_hashes b"
    "length (bit_array b1) = length (bit_array b)" by simp_all
  show "insert_bf hasher b1 item = Inr b1"
    unfolding insert_bf_def
  proof (rule insert_loop_all_set)
    fix j :: int
    assume j: "0 \<le> j" "j < num_hashes b1"
    then have "j < num_hashes b" using fr by simp
    from insert_loop_sets[OF ins[unfolded insert_bf_def] j(1) this] obtain idx where
      h: "hash hasher b item j = Inr idx" and
      r: "size_t_of_int idx < length (bit_array b)" and
      s: "bit_array b1 ! size_t_of_int idx" by blast
    have "hash hasher b1 item j = hash hasher b item j"
      by (rule hash_cong) (simp add: fr)
    with h r s fr show "\<exists>idx. hash hasher b1 item j = Inr idx
        \<and> size_t_of_int idx < length (bit_array b1) \<and> bit_array b1 ! size_t_of_int idx"
      by simp
  qed
next
  assume "well_formed b \<and> 0 < size_bf b"
  then show "\<exists>b1. insert_bf hasher b item = Inr b1"
    using insert_bf_total by blast
qed

theorem insert_idempotent_witness:
  "insert_bf example_hasher \<lparr>bit_array = replicate 8 False, size_bf = 8, num_hashes = 2\<rparr> ''ab''
     = Inr \<lparr>bit_array = [False, False, False, True, True, False, False, False],
            size_bf = 8, num_hashes = 2\<rparr>
   \<and> insert_bf example_hasher \<lparr>bit_array = [False, False, False, True, True, False, False, False],
            size_bf = 8, num_hashes = 2\<rparr> ''ab''
     = Inr \<lparr>bit_array = [False, False, False, True, True, False, False, False],
            size_bf = 8, num_hashes = 2\<rparr>
   \<and> well_formed \<lparr>bit_array = replicate 8 False, size_bf = 8, num_hashes = 2\<rparr>"
proof -
  let ?b = "\<lparr>bit_array = replicate 8 False, size_bf = 8, num_hashes = 2\<rparr>"
  let ?b1 = "\<lparr>bit_array = [False, False, False, True, True, False, False, False],
            size_bf = 8, num_hashes = 2\<rparr>"
  have e: "insert_bf example_hasher ?b ''ab'' = Inr ?b1"
    by code_simp
  have w: "well_formed ?b" by (simp add: well_formed_def INT_MAX_def)
  from insert_idempotent[of example_hasher ?b "''ab''"] e w show ?thesis by blast
qed

section \<open>Standard filter: monotonicity\<close>

text \<open>
  Claim C7. Across an \<open>insert\<close> call the number of set bits does not decrease: the bit
  array keeps its length and every bit that was set stays set. The other operations,
  \<open>possibly_contains\<close> and \<open>get_memory_bits\<close>, are \<open>const\<close> member functions; in the
  model they return a value and no state.
\<close>

theorem insert_monotone:
  assumes "insert_bf hasher b item = Inr b'"
  shows "count_set_bits b \<le> count_set_bits b'
     \<and> length (bit_array b') = length (bit_array b)
     \<and> (\<forall>n < length (bit_array b). bit_array b ! n \<longrightarrow> bit_array b' ! n)"
proof -
  from insert_bf_frame[OF assms] have
    l: "length (bit_array b) = length (bit_array b')" and
    m: "\<forall>n < length (bit_array b). bit_array b ! n \<longrightarrow> bit_array b' ! n" by simp_all
  from count_true_mono[OF l m] l m show ?thesis by (simp add: count_set_bits_def)
qed

theorem insert_monotone_witness:
  "insert_bf example_hasher
      \<lparr>bit_array = [True, False, False, False, False, False, False, True],
       size_bf = 8, num_hashes = 2\<rparr> ''ab''
     = Inr \<lparr>bit_array = [True, False, False, True, True, False, False, True],
            size_bf = 8, num_hashes = 2\<rparr>
   \<and> count_set_bits \<lparr>bit_array = [True, False, False, False, False, False, False, True],
                      size_bf = 8, num_hashes = 2\<rparr>
       \<le> count_set_bits \<lparr>bit_array = [True, False, False, True, True, False, False, True],
                          size_bf = 8, num_hashes = 2\<rparr>"
proof -
  let ?b = "\<lparr>bit_array = [True, False, False, False, False, False, False, True],
             size_bf = 8, num_hashes = 2\<rparr>"
  let ?b' = "\<lparr>bit_array = [True, False, False, True, True, False, False, True],
              size_bf = 8, num_hashes = 2\<rparr>"
  have e: "insert_bf example_hasher ?b ''ab'' = Inr ?b'"
    by code_simp
  from insert_monotone[OF e] e show ?thesis by blast
qed

section \<open>Standard filter: the fresh filter\<close>

text \<open>
  Claim C10. A StandardBloomFilter freshly constructed with a size \<open>s > 0\<close> answers
  \<open>possibly_contains(key)\<close> with false for every key when \<open>num_hashes\<close> is at least 1,
  and with true for every key when \<open>num_hashes\<close> is 0.
\<close>

theorem fresh_filter_contains_nothing:
  assumes "0 < s" and "s \<le> INT_MAX"
  shows "\<exists>b. StandardBloomFilter_ctor s k = Inr b
           \<and> (1 \<le> k \<longrightarrow> possibly_contains hasher b key = Inr False)
           \<and> (k = 0 \<longrightarrow> possibly_contains hasher b key = Inr True)"
proof -
  let ?b = "\<lparr>bit_array = replicate (nat s) False, size_bf = s, num_hashes = k\<rparr>"
  have c: "StandardBloomFilter_ctor s k = Inr ?b"
    using ctor_well_formed[of s k] assms by simp
  have "possibly_contains hasher ?b key = Inr (k \<le> 0)"
    unfolding possibly_contains_def using assms by (rule fresh_contains_loop)
  with c show ?thesis by auto
qed

theorem fresh_filter_contains_nothing_witness:
  "(0::int) < 8 \<and> (8::int) \<le> INT_MAX
   \<and> (\<exists>b. StandardBloomFilter_ctor 8 2 = Inr b
         \<and> possibly_contains example_hasher b ''http://safe-site-0.com'' = Inr False)
   \<and> (\<exists>b. StandardBloomFilter_ctor 8 0 = Inr b
         \<and> possibly_contains example_hasher b ''http://safe-site-0.com'' = Inr True)"
proof -
  have h: "(0::int) < 8" "(8::int) \<le> INT_MAX" by (simp_all add: INT_MAX_def)
  from fresh_filter_contains_nothing[OF h, of 2 example_hasher "''http://safe-site-0.com''"]
    fresh_filter_contains_nothing[OF h, of 0 example_hasher "''http://safe-site-0.com''"] h
  show ?thesis by simp
qed

section \<open>Standard filter: what the constructor accepts\<close>

text \<open>
  Claim C5, as amended. The constructor performs no validation of its own. A negative
  size fails at construction, because the \<open>resize\<close> of the bit array throws. A size of
  zero is accepted: the filter has an empty bit array, and with a positive number of
  hashes every later \<open>insert\<close> and \<open>possibly_contains\<close> divides by zero. The same holds for
  the two layers of the sandwiched filter.
\<close>

theorem constructor_behaviour:
  "(is_int s \<and> s < 0 \<longrightarrow> StandardBloomFilter_ctor s k = Inl Length_error)
   \<and> StandardBloomFilter_ctor 0 k = Inr \<lparr>bit_array = [], size_bf = 0, num_hashes = k\<rparr>
   \<and> (0 < k \<longrightarrow>
        insert_bf hasher \<lparr>bit_array = [], size_bf = 0, num_hashes = k\<rparr> item = Inl Division_by_zero
        \<and> possibly_contains hasher \<lparr>bit_array = [], size_bf = 0, num_hashes = k\<rparr> item
            = Inl Division_by_zero)
   \<and> (is_int L1_size \<and> is_int L3_size \<and> (L1_size < 0 \<or> L3_size < 0) \<longrightarrow>
        SandwichedLearnedBloomFilter_ctor L1_size L1_hashes L3_size L3_hashes = Inl Length_error)
   \<and> SandwichedLearnedBloomFilter_ctor 0 L1_hashes 0 L3_hashes
       = Inr \<lparr>L1_filter = \<lparr>bit_array = [], size_bf = 0, num_hashes = L1_hashes\<rparr>,
              L3_filter = \<lparr>bit_array = [], size_bf = 0, num_hashes = L3_hashes\<rparr>\<rparr>"
proof (intro conjI impI)
  assume "is_int s \<and> s < 0"
  then show "StandardBloomFilter_ctor s k = Inl Length_error"
    using ctor_negative[of s k] by (simp add: is_int_def)
next
  show z: "StandardBloomFilter_ctor 0 k = Inr \<lparr>bit_array = [], size_bf = 0, num_hashes = k\<rparr>" for k
    by (simp add: StandardBloomFilter_ctor_def size_t_of_int_def vector_max_size_def)
  show "SandwichedLearnedBloomFilter_ctor 0 L1_hashes 0 L3_hashes
       = Inr \<lparr>L1_filter = \<lparr>bit_array = [], size_bf = 0, num_hashes = L1_hashes\<rparr>,
              L3_filter = \<lparr>bit_array = [], size_bf = 0, num_hashes = L3_hashes\<rparr>\<rparr>"
    by (simp add: SandwichedLearnedBloomFilter_ctor_def z)
next
  assume k: "0 < k"
  show "insert_bf hasher \<lparr>bit_array = [], size_bf = 0, num_hashes = k\<rparr> item = Inl Division_by_zero"
    unfolding insert_bf_def using k
    by (subst insert_loop.simps) (simp add: hash_zero_size)
  show "possibly_contains hasher \<lparr>bit_array = [], size_bf = 0, num_hashes = k\<rparr> item
            = Inl Division_by_zero"
    unfolding possibly_contains_def using k
    by (subst contains_loop.simps) (simp add: hash_zero_size)
next
  assume a: "is_int L1_size \<and> is_int L3_size \<and> (L1_size < 0 \<or> L3_size < 0)"
  show "SandwichedLearnedBloomFilter_ctor L1_size L1_hashes L3_size L3_hashes = Inl Length_error"
  proof (cases "L1_size < 0")
    case True
    with a have "StandardBloomFilter_ctor L1_size L1_hashes = Inl Length_error"
      using ctor_negative[of L1_size L1_hashes] by (simp add: is_int_def)
    then show ?thesis by (simp add: SandwichedLearnedBloomFilter_ctor_def)
  next
    case False
    with a have "L3_size < 0" by simp
    with a have "StandardBloomFilter_ctor L3_size L3_hashes = Inl Length_error"
      using ctor_negative[of L3_size L3_hashes] by (simp add: is_int_def)
    moreover from False a obtain l1 where "StandardBloomFilter_ctor L1_size L1_hashes = Inr l1"
      using ctor_well_formed[of L1_size L1_hashes] by (auto simp: is_int_def)
    ultimately show ?thesis by (simp add: SandwichedLearnedBloomFilter_ctor_def)
  qed
qed

theorem constructor_behaviour_witness:
  "is_int (- 1) \<and> is_int 8
   \<and> StandardBloomFilter_ctor (- 1) 3 = Inl Length_error
   \<and> insert_bf example_hasher \<lparr>bit_array = [], size_bf = 0, num_hashes = 3\<rparr> ''a''
       = Inl Division_by_zero
   \<and> possibly_contains example_hasher \<lparr>bit_array = [], size_bf = 0, num_hashes = 3\<rparr> ''a''
       = Inl Division_by_zero
   \<and> SandwichedLearnedBloomFilter_ctor 8 2 (- 1) 2 = Inl Length_error"
proof -
  have n: "is_int (- 1)" "is_int 8" by (simp_all add: is_int_def INT_MIN_def INT_MAX_def)
  from constructor_behaviour[of "- 1" 3 example_hasher "''a''" 8 "- 1" 2 2] n
  show ?thesis by simp
qed

text \<open>
  Claim C5 as stated fails for the size zero: the construction succeeds and the first
  \<open>insert\<close> divides by zero.
\<close>

theorem zero_size_counterexample:
  "StandardBloomFilter_ctor 0 3 = Inr \<lparr>bit_array = [], size_bf = 0, num_hashes = 3\<rparr>
   \<and> insert_bf example_hasher \<lparr>bit_array = [], size_bf = 0, num_hashes = 3\<rparr> ''a''
       = Inl Division_by_zero"
  by (simp add: StandardBloomFilter_ctor_def size_t_of_int_def vector_max_size_def
      insert_bf_def insert_loop.simps hash_def)

section \<open>Sandwiched filter: the two insertions\<close>

text \<open>
  Claim C9. \<open>insert_L1(key)\<close> is the \<open>insert\<close> of L1 and leaves L3 unchanged;
  \<open>insert_L3(key)\<close> is the \<open>insert\<close> of L3 and leaves L1 unchanged. Neither takes the
  classifier as an argument, so neither evaluates it or extracts features.
\<close>

theorem insertions_are_framed:
  "(insert_L1 hasher sb item = Inr sb' \<longrightarrow>
      L3_filter sb' = L3_filter sb \<and> insert_bf hasher (L1_filter sb) item = Inr (L1_filter sb'))
   \<and> (insert_L3 hasher sb item = Inr sb' \<longrightarrow>
      L1_filter sb' = L1_filter sb \<and> insert_bf hasher (L3_filter sb) item = Inr (L3_filter sb'))"
  by (auto simp: insert_L1_def insert_L3_def split: sum.splits)

theorem insertions_are_framed_witness:
  "insert_L1 example_hasher
      \<lparr>L1_filter = \<lparr>bit_array = replicate 8 False, size_bf = 8, num_hashes = 2\<rparr>,
       L3_filter = \<lparr>bit_array = replicate 4 False, size_bf = 4, num_hashes = 2\<rparr>\<rparr> ''ab''
     = Inr \<lparr>L1_filter = \<lparr>bit_array = [False, False, False, True, True, False, False, False],
                           size_bf = 8, num_hashes = 2\<rparr>,
            L3_filter = \<lparr>bit_array = replicate 4 False, size_bf = 4, num_hashes = 2\<rparr>\<rparr>
   \<and> insert_bf example_hasher \<lparr>bit_array = replicate 8 False, size_bf = 8, num_hashes = 2\<rparr> ''ab''
     = Inr \<lparr>bit_array = [False, False, False, True, True, False, False, False],
            size_bf = 8, num_hashes = 2\<rparr>
   \<and> insert_L3 example_hasher
      \<lparr>L1_filter = \<lparr>bit_array = replicate 8 False, size_bf = 8, num_hashes = 2\<rparr>,
       L3_filter = \<lparr>bit_array = replicate 4 False, size_bf = 4, num_hashes = 2\<rparr>\<rparr> ''ab''
     = Inr \<lparr>L1_filter = \<lparr>bit_array = replicate 8 False, size_bf = 8, num_hashes = 2\<rparr>,
            L3_filter = \<lparr>bit_array = [True, False, False, True], size_bf = 4, num_hashes = 2\<rparr>\<rparr>
   \<and> insert_bf example_hasher \<lparr>bit_array = replicate 4 False, size_bf = 4, num_hashes = 2\<rparr> ''ab''
     = Inr \<lparr>bit_array = [True, False, False, True], size_bf = 4, num_hashes = 2\<rparr>"
proof -
  let ?l1 = "\<lparr>bit_array = replicate 8 False, size_bf = 8, num_hashes = 2\<rparr>"
  let ?l1' = "\<lparr>bit_array = [False, False, False, True, True, False, False, False],
               size_bf = 8, num_hashes = 2\<rparr>"
  let ?l3 = "\<lparr>bit_array = replicate 4 False, size_bf = 4, num_hashes = 2\<rparr>"
  let ?l3' = "\<lparr>bit_array = [True, False, False, True], size_bf = 4, num_hashes = 2\<rparr>"
  let ?sb = "\<lparr>L1_filter = ?l1, L3_filter = ?l3\<rparr>"
  have e1: "insert_L1 example_hasher ?sb ''ab'' = Inr \<lparr>L1_filter = ?l1', L3_filter = ?l3\<rparr>"
    by code_simp
  have e3: "insert_L3 example_hasher ?sb ''ab'' = Inr \<lparr>L1_filter = ?l1, L3_filter = ?l3'\<rparr>"
    by code_simp
  from insertions_are_framed[of example_hasher ?sb "''ab''" "\<lparr>L1_filter = ?l1', L3_filter = ?l3\<rparr>"]
    insertions_are_framed[of example_hasher ?sb "''ab''" "\<lparr>L1_filter = ?l1, L3_filter = ?l3'\<rparr>"]
    e1 e3
  show ?thesis by simp
qed

section \<open>Sandwiched filter: the query protocol\<close>

text \<open>
  Claim C3. \<open>query(key)\<close> returns false if \<open>L1.possibly_contains(key)\<close> is false;
  otherwise it returns true if the classifier, evaluated on the extracted features of the
  key, predicts member; otherwise, the classifier predicting non-member, it returns
  exactly \<open>L3.possibly_contains(key)\<close>. On a sandwiched filter with layers of positive
  size and a key whose digit and hyphen counts are values of type \<open>int\<close>, the three
  answers exist and the result is the function \<open>query_spec\<close> of them and of nothing else.
\<close>

theorem query_protocol:
  "(possibly_contains hasher (L1_filter sb) item = Inr False \<longrightarrow>
      query evaluate_model hasher sb item = Inr False)
   \<and> (possibly_contains hasher (L1_filter sb) item = Inr True
        \<and> prediction evaluate_model item = Inr True \<longrightarrow>
      query evaluate_model hasher sb item = Inr True)
   \<and> (possibly_contains hasher (L1_filter sb) item = Inr True
        \<and> prediction evaluate_model item = Inr False \<longrightarrow>
      query evaluate_model hasher sb item = possibly_contains hasher (L3_filter sb) item)
   \<and> (operational sb \<and> counters_fit item \<longrightarrow>
      (\<exists>in_L1 member in_L3.
         possibly_contains hasher (L1_filter sb) item = Inr in_L1
         \<and> prediction evaluate_model item = Inr member
         \<and> possibly_contains hasher (L3_filter sb) item = Inr in_L3
         \<and> query evaluate_model hasher sb item = Inr (query_spec in_L1 member in_L3)))"
proof (intro conjI impI)
  assume "operational sb \<and> counters_fit item"
  then have o: "well_formed (L1_filter sb)" "0 < size_bf (L1_filter sb)"
    "well_formed (L3_filter sb)" "0 < size_bf (L3_filter sb)" and f: "counters_fit item"
    by (simp_all add: operational_def)
  from possibly_contains_total[OF o(1,2)] obtain a where
    a: "possibly_contains hasher (L1_filter sb) item = Inr a" by blast
  from possibly_contains_total[OF o(3,4)] obtain c where
    c: "possibly_contains hasher (L3_filter sb) item = Inr c" by blast
  from prediction_returns[OF f] obtain m where
    m: "prediction evaluate_model item = Inr m" by blast
  have "query evaluate_model hasher sb item = Inr (query_spec a m c)"
    using a c m
    by (auto simp: query_def query_spec_def prediction_def split: sum.splits prod.splits)
  with a c m show "\<exists>in_L1 member in_L3.
         possibly_contains hasher (L1_filter sb) item = Inr in_L1
         \<and> prediction evaluate_model item = Inr member
         \<and> possibly_contains hasher (L3_filter sb) item = Inr in_L3
         \<and> query evaluate_model hasher sb item = Inr (query_spec in_L1 member in_L3)"
    by blast
qed (auto simp: query_def prediction_def split: sum.splits prod.splits)

theorem query_protocol_witness:
  "possibly_contains example_hasher
      \<lparr>bit_array = [True, True, False, False, False, False, False, True],
       size_bf = 8, num_hashes = 2\<rparr> ''ab'' = Inr False
   \<and> query has_hyphen example_hasher
        \<lparr>L1_filter = \<lparr>bit_array = [True, True, False, False, False, False, False, True],
                      size_bf = 8, num_hashes = 2\<rparr>,
         L3_filter = \<lparr>bit_array = [True, False, False, True], size_bf = 4, num_hashes = 2\<rparr>\<rparr>
        ''ab'' = Inr False
   \<and> prediction has_hyphen ''a-b'' = Inr True
   \<and> query has_hyphen example_hasher
        \<lparr>L1_filter = \<lparr>bit_array = [True, True, False, False, False, False, False, True],
                      size_bf = 8, num_hashes = 2\<rparr>,
         L3_filter = \<lparr>bit_array = [True, False, False, True], size_bf = 4, num_hashes = 2\<rparr>\<rparr>
        ''a-b'' = Inr True
   \<and> prediction has_hyphen ''cd'' = Inr False
   \<and> query has_hyphen example_hasher
        \<lparr>L1_filter = \<lparr>bit_array = [True, True, False, False, False, False, False, True],
                      size_bf = 8, num_hashes = 2\<rparr>,
         L3_filter = \<lparr>bit_array = [True, False, False, True], size_bf = 4, num_hashes = 2\<rparr>\<rparr>
        ''cd''
       = possibly_contains example_hasher
           \<lparr>bit_array = [True, False, False, True], size_bf = 4, num_hashes = 2\<rparr> ''cd''
   \<and> counters_fit ''cd''
   \<and> (\<exists>in_L1 member in_L3.
         prediction has_hyphen ''cd'' = Inr member
         \<and> query has_hyphen example_hasher
           \<lparr>L1_filter = \<lparr>bit_array = [True, True, False, False, False, False, False, True],
                         size_bf = 8, num_hashes = 2\<rparr>,
            L3_filter = \<lparr>bit_array = [True, False, False, True], size_bf = 4, num_hashes = 2\<rparr>\<rparr>
           ''cd''
         = Inr (query_spec in_L1 member in_L3))"
proof -
  let ?l1 = "\<lparr>bit_array = [True, True, False, False, False, False, False, True],
              size_bf = 8, num_hashes = 2\<rparr>"
  let ?l3 = "\<lparr>bit_array = [True, False, False, True], size_bf = 4, num_hashes = 2\<rparr>"
  let ?sb = "\<lparr>L1_filter = ?l1, L3_filter = ?l3\<rparr>"
  have a: "possibly_contains example_hasher (L1_filter ?sb) ''ab'' = Inr False"
    by code_simp
  have b: "possibly_contains example_hasher (L1_filter ?sb) ''a-b'' = Inr True"
    by code_simp
  have c: "possibly_contains example_hasher (L1_filter ?sb) ''cd'' = Inr True"
    by code_simp
  have p: "prediction has_hyphen ''a-b'' = Inr True" "prediction has_hyphen ''cd'' = Inr False"
    by code_simp+
  have f: "counters_fit ''cd''"
    by code_simp
  have w: "operational ?sb"
    by (simp add: operational_def well_formed_def INT_MAX_def)
  have 1: "query has_hyphen example_hasher ?sb ''ab'' = Inr False"
    using query_protocol[of example_hasher ?sb "''ab''" has_hyphen] a by blast
  have 2: "query has_hyphen example_hasher ?sb ''a-b'' = Inr True"
    using query_protocol[of example_hasher ?sb "''a-b''" has_hyphen] b p by blast
  have 3: "query has_hyphen example_hasher ?sb ''cd''
             = possibly_contains example_hasher (L3_filter ?sb) ''cd''"
    using query_protocol[of example_hasher ?sb "''cd''" has_hyphen] c p by blast
  have 4: "\<exists>in_L1 member in_L3. prediction has_hyphen ''cd'' = Inr member
             \<and> query has_hyphen example_hasher ?sb ''cd'' = Inr (query_spec in_L1 member in_L3)"
    using query_protocol[of example_hasher ?sb "''cd''" has_hyphen] w f by blast
  from a p f 1 2 3 4 show ?thesis by simp
qed

section \<open>Sandwiched filter: no false negatives\<close>

text \<open>
  Claim C1. Let \<open>calls\<close> be any sequence of \<open>insert_L1\<close> and \<open>insert_L3\<close> calls that
  follows the insertion protocol for a set \<open>S\<close> of keys: for every key of \<open>S\<close> it contains
  \<open>insert_L1(key)\<close>, and \<open>insert_L3(key)\<close> whenever the classifier, evaluated on the
  features of the key, returns a negative prediction. Then in the state that the calls
  produce \<open>query(key)\<close> returns true for every key of \<open>S\<close> whose digit and hyphen counts
  are values of type \<open>int\<close>, for every classifier; and on a sandwiched filter with layers
  of positive size the calls do produce a state.
\<close>

theorem sandwich_no_false_negatives:
  assumes protocol:
    "\<forall>key \<in> S. Insert_L1 key \<in> set calls
        \<and> (prediction evaluate_model key = Inr False \<longrightarrow> Insert_L3 key \<in> set calls)"
  shows "(\<forall>sb'. apply_calls hasher sb calls = Inr sb' \<longrightarrow>
            (\<forall>key \<in> S. counters_fit key \<longrightarrow> query evaluate_model hasher sb' key = Inr True))
       \<and> (operational sb \<longrightarrow> (\<exists>sb'. apply_calls hasher sb calls = Inr sb'))"
proof (intro conjI allI impI ballI)
  fix sb' key
  assume run: "apply_calls hasher sb calls = Inr sb'" and key: "key \<in> S"
    and fit: "counters_fit key"
  from protocol key have c1: "Insert_L1 key \<in> set calls" by blast
  from apply_calls_L1_contained[OF run c1]
  have l1: "possibly_contains hasher (L1_filter sb') key = Inr True" .
  from prediction_returns[OF fit] obtain member where
    m: "prediction evaluate_model key = Inr member" by blast
  show "query evaluate_model hasher sb' key = Inr True"
  proof (cases member)
    case True
    with l1 m show ?thesis
      by (auto simp: query_def prediction_def split: sum.splits prod.splits)
  next
    case False
    with m have "prediction evaluate_model key = Inr False" by simp
    with protocol key have "Insert_L3 key \<in> set calls" by blast
    from apply_calls_L3_contained[OF run this]
    have "possibly_contains hasher (L3_filter sb') key = Inr True" .
    with l1 m show ?thesis
      by (auto simp: query_def prediction_def split: sum.splits prod.splits)
  qed
next
  assume "operational sb"
  then show "\<exists>sb'. apply_calls hasher sb calls = Inr sb'"
    using apply_calls_total by blast
qed

theorem sandwich_no_false_negatives_witness:
  "operational
      \<lparr>L1_filter = \<lparr>bit_array = replicate 8 False, size_bf = 8, num_hashes = 2\<rparr>,
       L3_filter = \<lparr>bit_array = replicate 4 False, size_bf = 4, num_hashes = 2\<rparr>\<rparr>
   \<and> prediction has_hyphen ''a-b'' = Inr True
   \<and> prediction has_hyphen ''cd'' = Inr False
   \<and> counters_fit ''a-b'' \<and> counters_fit ''cd''
   \<and> (\<exists>sb'. apply_calls example_hasher
               \<lparr>L1_filter = \<lparr>bit_array = replicate 8 False, size_bf = 8, num_hashes = 2\<rparr>,
                L3_filter = \<lparr>bit_array = replicate 4 False, size_bf = 4, num_hashes = 2\<rparr>\<rparr>
               [Insert_L1 ''a-b'', Insert_L1 ''cd'', Insert_L3 ''cd''] = Inr sb'
         \<and> query has_hyphen example_hasher sb' ''a-b'' = Inr True
         \<and> query has_hyphen example_hasher sb' ''cd'' = Inr True)"
proof -
  let ?sb = "\<lparr>L1_filter = \<lparr>bit_array = replicate 8 False, size_bf = 8, num_hashes = 2\<rparr>,
              L3_filter = \<lparr>bit_array = replicate 4 False, size_bf = 4, num_hashes = 2\<rparr>\<rparr>"
  let ?calls = "[Insert_L1 ''a-b'', Insert_L1 ''cd'', Insert_L3 ''cd'']"
  have o: "operational ?sb"
    by (simp add: operational_def well_formed_def INT_MAX_def)
  have m: "prediction has_hyphen ''a-b'' = Inr True" "prediction has_hyphen ''cd'' = Inr False"
    by code_simp+
  have f: "counters_fit ''a-b''" "counters_fit ''cd''"
    by code_simp+
  have p: "\<forall>key \<in> {''a-b'', ''cd''}. Insert_L1 key \<in> set ?calls
        \<and> (prediction has_hyphen key = Inr False \<longrightarrow> Insert_L3 key \<in> set ?calls)"
    using m by simp
  from sandwich_no_false_negatives[OF p, of example_hasher ?sb] o
  obtain sb' where "apply_calls example_hasher ?sb ?calls = Inr sb'"
    "\<forall>key \<in> {''a-b'', ''cd''}. counters_fit key \<longrightarrow> query has_hyphen example_hasher sb' key = Inr True"
    by blast
  with o m f show ?thesis by blast
qed

section \<open>Sandwiched filter: memory accounting\<close>

text \<open>
  Claim C8, as amended. \<open>get_memory_bits()\<close> of a StandardBloomFilter constructed with
  size \<open>s\<close> returns exactly \<open>s\<close>, before and after any insertions. \<open>get_memory_bits()\<close> of
  a SandwichedLearnedBloomFilter constructed with \<open>L1_size\<close> and \<open>L3_size\<close> returns exactly
  \<open>L1_size + L3_size\<close>, with nothing added for the classifier, provided that the sum is at
  most \<open>INT_MAX\<close>; a larger sum overflows the \<open>int\<close> addition.
\<close>

theorem memory_accounting:
  "(StandardBloomFilter_ctor s k = Inr b \<and> insert_all hasher b items = Inr b' \<longrightarrow>
      get_memory_bits b = s \<and> get_memory_bits b' = s)
   \<and> (is_int L1_size \<and> is_int L3_size
        \<and> SandwichedLearnedBloomFilter_ctor L1_size L1_hashes L3_size L3_hashes = Inr sb
        \<and> apply_calls hasher sb calls = Inr sb' \<longrightarrow>
      SLBF_get_memory_bits sb' =
        (if L1_size + L3_size \<le> INT_MAX then Inr (L1_size + L3_size) else Inl Signed_overflow))"
proof (intro conjI impI)
  assume a: "StandardBloomFilter_ctor s k = Inr b \<and> insert_all hasher b items = Inr b'"
  then have "size_bf b = s" using ctor_fields by blast
  moreover from a have "size_bf b' = size_bf b" using insert_all_frame by blast
  ultimately show "get_memory_bits b = s" "get_memory_bits b' = s"
    by (simp_all add: get_memory_bits_def)
next
  assume a: "is_int L1_size \<and> is_int L3_size
        \<and> SandwichedLearnedBloomFilter_ctor L1_size L1_hashes L3_size L3_hashes = Inr sb
        \<and> apply_calls hasher sb calls = Inr sb'"
  then obtain l1 l3 where
    c1: "StandardBloomFilter_ctor L1_size L1_hashes = Inr l1" and
    c3: "StandardBloomFilter_ctor L3_size L3_hashes = Inr l3" and
    sb: "sb = \<lparr>L1_filter = l1, L3_filter = l3\<rparr>"
    by (auto simp: SandwichedLearnedBloomFilter_ctor_def split: sum.splits)
  from a c1 c3 have nn: "0 \<le> L1_size" "0 \<le> L3_size" using ctor_nonneg by blast+
  from a have "grown (L1_filter sb) (L1_filter sb')" "grown (L3_filter sb) (L3_filter sb')"
    using apply_calls_grown by blast+
  with sb ctor_fields[OF c1] ctor_fields[OF c3]
  have "size_bf (L1_filter sb') = L1_size" "size_bf (L3_filter sb') = L3_size"
    by (simp_all add: grown_def)
  with nn show "SLBF_get_memory_bits sb' =
        (if L1_size + L3_size \<le> INT_MAX then Inr (L1_size + L3_size) else Inl Signed_overflow)"
    by (simp add: SLBF_get_memory_bits_def get_memory_bits_def is_int_def INT_MIN_def Let_def)
qed

theorem memory_accounting_witness:
  "StandardBloomFilter_ctor 8 2 = Inr \<lparr>bit_array = replicate 8 False, size_bf = 8, num_hashes = 2\<rparr>
   \<and> (\<exists>b'. insert_all example_hasher \<lparr>bit_array = replicate 8 False, size_bf = 8, num_hashes = 2\<rparr>
              [''ab'', ''cd''] = Inr b' \<and> get_memory_bits b' = 8)
   \<and> (\<exists>sb sb'. SandwichedLearnedBloomFilter_ctor 8 2 4 2 = Inr sb
         \<and> apply_calls example_hasher sb [Insert_L1 ''ab'', Insert_L3 ''ab''] = Inr sb'
         \<and> SLBF_get_memory_bits sb' = Inr 12)"
proof -
  let ?b = "\<lparr>bit_array = replicate 8 False, size_bf = 8, num_hashes = 2\<rparr>"
  let ?l3 = "\<lparr>bit_array = replicate 4 False, size_bf = 4, num_hashes = 2\<rparr>"
  let ?sb = "\<lparr>L1_filter = ?b, L3_filter = ?l3\<rparr>"
  have c: "StandardBloomFilter_ctor 8 2 = Inr ?b" "well_formed ?b"
    using ctor_well_formed[of 8 2] by (simp_all add: INT_MAX_def)
  have c3: "StandardBloomFilter_ctor 4 2 = Inr ?l3" "well_formed ?l3"
    using ctor_well_formed[of 4 2] by (simp_all add: INT_MAX_def)
  from insert_all_total[OF c(2), of example_hasher "[''ab'', ''cd'']"] obtain b' where
    i: "insert_all example_hasher ?b [''ab'', ''cd''] = Inr b'" by auto
  have s: "SandwichedLearnedBloomFilter_ctor 8 2 4 2 = Inr ?sb"
    using c c3 by (simp add: SandwichedLearnedBloomFilter_ctor_def)
  have "operational ?sb" using c c3 by (simp add: operational_def)
  from apply_calls_total[OF this, of example_hasher "[Insert_L1 ''ab'', Insert_L3 ''ab'']"]
  obtain sb' where r: "apply_calls example_hasher ?sb [Insert_L1 ''ab'', Insert_L3 ''ab''] = Inr sb'"
    by blast
  have n: "is_int 8" "is_int 4" by (simp_all add: is_int_def INT_MIN_def INT_MAX_def)
  from memory_accounting[of 8 2 ?b example_hasher "[''ab'', ''cd'']" b' 8 4 2 2 ?sb
      "[Insert_L1 ''ab'', Insert_L3 ''ab'']" sb'] c i s r n
  have "get_memory_bits b' = 8" "SLBF_get_memory_bits sb' = Inr 12"
    by (simp_all add: INT_MAX_def)
  with c i s r show ?thesis by blast
qed

text \<open>
  Claim C8 as stated fails for two layers of \<open>2 ^ 30\<close> bits each: the sum \<open>2 ^ 31\<close> is
  not an \<open>int\<close>.
\<close>

theorem memory_accounting_counterexample:
  "SandwichedLearnedBloomFilter_ctor 1073741824 2 1073741824 2
     = Inr \<lparr>L1_filter = \<lparr>bit_array = replicate 1073741824 False, size_bf = 1073741824, num_hashes = 2\<rparr>,
            L3_filter = \<lparr>bit_array = replicate 1073741824 False, size_bf = 1073741824, num_hashes = 2\<rparr>\<rparr>
   \<and> SLBF_get_memory_bits
        \<lparr>L1_filter = \<lparr>bit_array = replicate 1073741824 False, size_bf = 1073741824, num_hashes = 2\<rparr>,
         L3_filter = \<lparr>bit_array = replicate 1073741824 False, size_bf = 1073741824, num_hashes = 2\<rparr>\<rparr>
     \<noteq> Inr (1073741824 + 1073741824)"
proof -
  have "StandardBloomFilter_ctor 1073741824 2
     = Inr \<lparr>bit_array = replicate 1073741824 False, size_bf = 1073741824, num_hashes = 2\<rparr>"
    using ctor_well_formed[of 1073741824 2] by (simp add: INT_MAX_def)
  then show ?thesis
    by (simp add: SandwichedLearnedBloomFilter_ctor_def SLBF_get_memory_bits_def
        get_memory_bits_def is_int_def INT_MAX_def INT_MIN_def)
qed

section \<open>The population loop of main and the insertion policy\<close>

text \<open>
  Claim C2, as amended. The population loop of main calls, for every URL of the true set,
  \<open>insert_L1\<close>, and \<open>insert_L3\<close> if and only if the draw \<open>rand() % 100\<close> made for that URL
  is below 10; the classifier is not an argument of the loop and is not consulted. The
  calls made on \<open>learned_bf\<close> are the sequence \<open>populate_calls\<close>.
\<close>

theorem population_policy:
  "(populate hasher rand n urls st = Inr st' \<longrightarrow>
      apply_calls hasher (learned_bf st) (populate_calls rand n urls) = Inr (learned_bf st'))
   \<and> (Insert_L1 key \<in> set (populate_calls rand n urls) \<longleftrightarrow> key \<in> set urls)
   \<and> (Insert_L3 key \<in> set (populate_calls rand n urls) \<longleftrightarrow>
        (\<exists>j < length urls. urls ! j = key \<and> rand (n + j) mod 100 < 10))"
  using populate_learned populate_calls_L1 populate_calls_L3 by blast

theorem population_policy_witness:
  "populate example_hasher example_rand 0 [''cd'', ''ab'']
     \<lparr>standard_bf = \<lparr>bit_array = replicate 8 False, size_bf = 8, num_hashes = 3\<rparr>,
      learned_bf = \<lparr>L1_filter = \<lparr>bit_array = replicate 8 False, size_bf = 8, num_hashes = 2\<rparr>,
                   L3_filter = \<lparr>bit_array = replicate 4 False, size_bf = 4, num_hashes = 2\<rparr>\<rparr>\<rparr>
   = Inr \<lparr>standard_bf = \<lparr>bit_array = [True, True, False, True, True, True, False, True],
                          size_bf = 8, num_hashes = 3\<rparr>,
          learned_bf = \<lparr>L1_filter = \<lparr>bit_array = [True, False, False, True, True, False, False, True],
                                     size_bf = 8, num_hashes = 2\<rparr>,
                       L3_filter = \<lparr>bit_array = [True, False, False, True],
                                     size_bf = 4, num_hashes = 2\<rparr>\<rparr>\<rparr>
   \<and> populate_calls example_rand 0 [''cd'', ''ab'']
       = [Insert_L1 ''cd'', Insert_L1 ''ab'', Insert_L3 ''ab'']
   \<and> apply_calls example_hasher
        \<lparr>L1_filter = \<lparr>bit_array = replicate 8 False, size_bf = 8, num_hashes = 2\<rparr>,
         L3_filter = \<lparr>bit_array = replicate 4 False, size_bf = 4, num_hashes = 2\<rparr>\<rparr>
        (populate_calls example_rand 0 [''cd'', ''ab''])
     = Inr \<lparr>L1_filter = \<lparr>bit_array = [True, False, False, True, True, False, False, True],
                           size_bf = 8, num_hashes = 2\<rparr>,
            L3_filter = \<lparr>bit_array = [True, False, False, True], size_bf = 4, num_hashes = 2\<rparr>\<rparr>"
proof -
  let ?st = "\<lparr>standard_bf = \<lparr>bit_array = replicate 8 False, size_bf = 8, num_hashes = 3\<rparr>,
      learned_bf = \<lparr>L1_filter = \<lparr>bit_array = replicate 8 False, size_bf = 8, num_hashes = 2\<rparr>,
                   L3_filter = \<lparr>bit_array = replicate 4 False, size_bf = 4, num_hashes = 2\<rparr>\<rparr>\<rparr>"
  let ?st' = "\<lparr>standard_bf = \<lparr>bit_array = [True, True, False, True, True, True, False, True],
                          size_bf = 8, num_hashes = 3\<rparr>,
          learned_bf = \<lparr>L1_filter = \<lparr>bit_array = [True, False, False, True, True, False, False, True],
                                     size_bf = 8, num_hashes = 2\<rparr>,
                       L3_filter = \<lparr>bit_array = [True, False, False, True],
                                     size_bf = 4, num_hashes = 2\<rparr>\<rparr>\<rparr>"
  have e: "populate example_hasher example_rand 0 [''cd'', ''ab''] ?st = Inr ?st'"
    by code_simp
  have t: "populate_calls example_rand 0 [''cd'', ''ab'']
       = [Insert_L1 ''cd'', Insert_L1 ''ab'', Insert_L3 ''ab'']"
    by (simp add: example_rand_def)
  from population_policy[of example_hasher example_rand 0 "[''cd'', ''ab'']" ?st ?st'] e
  have "apply_calls example_hasher (learned_bf ?st) (populate_calls example_rand 0 [''cd'', ''ab''])
          = Inr (learned_bf ?st')"
    by blast
  with e t show ?thesis by simp
qed

text \<open>
  Claim C2 as stated fails. With every draw equal to 50 the first URL of the true set is
  not inserted into L3 although the classifier \<open>reject_all\<close> predicts non-member on it;
  with every draw equal to 5 it is inserted into L3 although the classifier \<open>has_hyphen\<close>
  predicts member on it.
\<close>

theorem population_policy_counterexample:
  "malicious_url 0 \<in> set malicious_urls
   \<and> prediction reject_all (malicious_url 0) = Inr False
   \<and> Insert_L3 (malicious_url 0) \<notin> set (populate_calls (fixed_rand 50) 0 malicious_urls)
   \<and> prediction has_hyphen (malicious_url 0) = Inr True
   \<and> Insert_L3 (malicious_url 0) \<in> set (populate_calls (fixed_rand 5) 0 malicious_urls)"
proof -
  have n: "prediction reject_all (malicious_url 0) = Inr False"
    by code_simp
  have y: "prediction has_hyphen (malicious_url 0) = Inr True"
    by code_simp
  have out: "Insert_L3 (malicious_url 0) \<notin> set (populate_calls (fixed_rand 50) 0 malicious_urls)"
    by (simp add: populate_calls_L3 fixed_rand_def)
  have "0 < length malicious_urls \<and> malicious_urls ! 0 = malicious_url 0"
    by (simp add: malicious_urls_def generated_urls_length generated_urls_nth)
  then have "Insert_L3 (malicious_url 0) \<in> set (populate_calls (fixed_rand 5) 0 malicious_urls)"
    unfolding populate_calls_L3 by (intro exI[of _ 0]) (simp add: fixed_rand_def)
  with first_url_generated n y out show ?thesis by blast
qed

text \<open>
  The consequence for the filter that main populates: after a population in which the
  draw for a key is 50, a classifier that predicts non-member on the key makes \<open>query\<close>
  return false for that key of the true set.
\<close>

lemma random_population_false_negative:
  "populate example_hasher (fixed_rand 50) 0 [''cd'']
     \<lparr>standard_bf = \<lparr>bit_array = replicate 8 False, size_bf = 8, num_hashes = 3\<rparr>,
      learned_bf = \<lparr>L1_filter = \<lparr>bit_array = replicate 8 False, size_bf = 8, num_hashes = 2\<rparr>,
                   L3_filter = \<lparr>bit_array = replicate 4 False, size_bf = 4, num_hashes = 2\<rparr>\<rparr>\<rparr>
   = Inr \<lparr>standard_bf = \<lparr>bit_array = [True, True, False, False, False, False, False, True],
                          size_bf = 8, num_hashes = 3\<rparr>,
          learned_bf = \<lparr>L1_filter = \<lparr>bit_array = [True, False, False, False, False, False, False, True],
                                     size_bf = 8, num_hashes = 2\<rparr>,
                       L3_filter = \<lparr>bit_array = replicate 4 False, size_bf = 4, num_hashes = 2\<rparr>\<rparr>\<rparr>
   \<and> query reject_all example_hasher
        \<lparr>L1_filter = \<lparr>bit_array = [True, False, False, False, False, False, False, True],
                      size_bf = 8, num_hashes = 2\<rparr>,
         L3_filter = \<lparr>bit_array = replicate 4 False, size_bf = 4, num_hashes = 2\<rparr>\<rparr> ''cd''
     = Inr False"
  by code_simp

end
